theory Spec2Isabelle
  imports Complex_Main "HOL-Library.Word"
begin

section \<open>Numbers\<close>

text \<open>
  The program is TypeScript. Array indices, counters and pixel coordinates are modelled as
  \<open>nat\<close> or \<open>int\<close>; colour channels of a \<open>Uint8ClampedArray\<close> as \<open>8 word\<close>.
  Time stamps, positions and velocities are JavaScript numbers (IEEE doubles); they are
  modelled as exact rationals, so the rounding of a double operation is not part of the
  model. The results below that involve them are about comparisons, assignments of
  constants and integer counters.
\<close>

section \<open>Timeline editor (components/AnimationModal.tsx)\<close>

text \<open>
  The React state of the editor: \<open>frames\<close> (one data URL per frame; the element type is
  left open) and \<open>selectedFrameIdx\<close>. The editor actions read the state and set a new one.
\<close>

record 'a timeline =
  frames :: "'a list"
  selectedFrameIdx :: nat

text \<open>\<open>xs.filter((_, i) => P(i))\<close>: the elements whose index satisfies \<open>P\<close>, in order.\<close>

definition filter_index :: "(nat \<Rightarrow> bool) \<Rightarrow> 'a list \<Rightarrow> 'a list" where
  "filter_index P xs = map fst (filter (\<lambda>(f, i). P i) (zip xs [0..<length xs]))"

text \<open>
  \<open>moveFrame(idx, direction)\<close>, lines 119-127. The buttons that call it pass the index of a
  rendered frame, so \<open>idx < length frames\<close>; the model is meant for such \<open>idx\<close> only (for a
  larger \<open>idx\<close> the JavaScript swap would extend the array with a hole).
\<close>

definition moveFrame :: "nat \<Rightarrow> int \<Rightarrow> 'a timeline \<Rightarrow> 'a timeline" where
  "moveFrame idx direction t =
     (let newFrames = frames t;
          targetIdx = int idx + direction
      in if targetIdx < 0 \<or> targetIdx \<ge> int (length newFrames) then t
         else t\<lparr>frames := newFrames[idx := newFrames ! nat targetIdx,
                                     nat targetIdx := newFrames ! idx],
                selectedFrameIdx := nat targetIdx\<rparr>)"

text \<open>\<open>deleteFrame(idx)\<close>, lines 129-134.\<close>

definition deleteFrame :: "nat \<Rightarrow> 'a timeline \<Rightarrow> 'a timeline" where
  "deleteFrame idx t =
     (if length (frames t) \<le> 1 then t
      else let newFrames = filter_index (\<lambda>i. i \<noteq> idx) (frames t)
           in t\<lparr>frames := newFrames,
                 selectedFrameIdx := (if selectedFrameIdx t \<ge> length newFrames
                                      then length newFrames - 1 else selectedFrameIdx t)\<rparr>)"

text \<open>A sequence of delete clicks, first click first.\<close>

fun deleteFrames :: "nat list \<Rightarrow> 'a timeline \<Rightarrow> 'a timeline" where
  "deleteFrames [] t = t"
| "deleteFrames (idx # idxs) t = deleteFrames idxs (deleteFrame idx t)"

section \<open>Playback scheduler (components/AnimationModal.tsx)\<close>




section \<open>Frame slicer and stitcher (components/AnimationModal.tsx)\<close>






section \<open>Pixel editor: flood fill\<close>

text \<open>
  \<open>imgData.data\<close> is a \<open>Uint8ClampedArray\<close> of \<open>4 * width * height\<close> bytes, four per pixel
  in row-major order. The fill colour arrives as a string \<open>#rrggbb\<close> from the colour input,
  the palette or the picker; the model takes the three bytes that \<open>parseInt\<close> reads from it.
\<close>

type_synonym byte = "8 word"
type_synonym rgba = "byte \<times> byte \<times> byte \<times> byte"

text \<open>\<open>getPixel\<close>, lines 99-102.\<close>

definition getPixel :: "nat \<Rightarrow> nat \<Rightarrow> int \<Rightarrow> int \<Rightarrow> int" where
  "getPixel width height px py =
     (if px < 0 \<or> py < 0 \<or> px \<ge> int width \<or> py \<ge> int height then - 1
      else (py * int width + px) * 4)"

text \<open>
  The loop of lines 114-129 for the start colour and the fill colour. The head of the list
  is the top of the stack: \<open>pop\<close> takes it, and the four \<open>push\<close> calls leave
  \<open>(cx, cy - 1)\<close> on top. The value \<open>None\<close> stands for a loop that does not end.
\<close>

partial_function (option) fill_loop ::
  "nat \<Rightarrow> nat \<Rightarrow> rgba \<Rightarrow> rgba \<Rightarrow> (int \<times> int) list \<Rightarrow> byte list \<Rightarrow> byte list option" where
  "fill_loop width height start fill stack data =
     (case stack of
        [] \<Rightarrow> Some data
      | (cx, cy) # rest \<Rightarrow>
          (case (start, fill) of ((startR, startG, startB, startA), (r, g, b, a)) \<Rightarrow>
             (let idx = getPixel width height cx cy
              in if idx \<noteq> - 1 \<and> data ! nat idx = startR \<and> data ! nat (idx + 1) = startG
                    \<and> data ! nat (idx + 2) = startB \<and> data ! nat (idx + 3) = startA
                 then fill_loop width height start fill
                        ((cx, cy - 1) # (cx, cy + 1) # (cx - 1, cy) # (cx + 1, cy) # rest)
                        (data[nat idx := r, nat (idx + 1) := g, nat (idx + 2) := b, nat (idx + 3) := a])
                 else fill_loop width height start fill rest data)))"

text \<open>
  \<open>floodFill\<close>, lines 83-131, as a function from the buffer read by \<open>getImageData\<close> to the
  buffer written by \<open>putImageData\<close> (the buffer itself when the function returns early).
  For a start outside the canvas \<open>startIdx\<close> is \<open>-1\<close>: \<open>startR = data[-1]\<close> is \<open>undefined\<close>,
  the test of line 110 fails, the loop pops the start, finds \<open>idx = -1\<close> and ends, so the
  buffer is written back unchanged.
\<close>

definition floodFill ::
  "nat \<Rightarrow> nat \<Rightarrow> int \<Rightarrow> int \<Rightarrow> byte \<times> byte \<times> byte \<Rightarrow> byte list \<Rightarrow> byte list option" where
  "floodFill width height x y fillColor data =
     (case fillColor of (r, g, b) \<Rightarrow>
        (let a = 255;
             startIdx = getPixel width height x y
         in if startIdx = - 1 then Some data
            else (let startR = data ! nat startIdx;
                      startG = data ! nat (startIdx + 1);
                      startB = data ! nat (startIdx + 2);
                      startA = data ! nat (startIdx + 3)
                  in if startR = r \<and> startG = g \<and> startB = b \<and> startA = a then Some data
                     else fill_loop width height (startR, startG, startB, startA) (r, g, b, a)
                            [(x, y)] data)))"

declare fill_loop.simps [code]

text \<open>
  Views of the buffer used to state what the fill does: the pixels inside the canvas, the
  four bytes of a pixel, and the four axis neighbours of a pixel in the order of the stack.
\<close>

definition inside :: "nat \<Rightarrow> nat \<Rightarrow> int \<times> int \<Rightarrow> bool" where
  "inside width height p =
     (0 \<le> fst p \<and> fst p < int width \<and> 0 \<le> snd p \<and> snd p < int height)"

definition pixel_at :: "nat \<Rightarrow> byte list \<Rightarrow> int \<times> int \<Rightarrow> rgba" where
  "pixel_at width data p =
     (let idx = nat ((snd p * int width + fst p) * 4)
      in (data ! idx, data ! (idx + 1), data ! (idx + 2), data ! (idx + 3)))"

definition neighbours :: "int \<times> int \<Rightarrow> (int \<times> int) list" where
  "neighbours p = [(fst p, snd p - 1), (fst p, snd p + 1), (fst p - 1, snd p), (fst p + 1, snd p)]"

text \<open>
  The region of the specification: the pixels inside the canvas reached from a seed by
  steps to axis neighbours, every pixel on the way, the seed included, having exactly the
  colour \<open>src\<close>.
\<close>

inductive_set region ::
  "nat \<Rightarrow> nat \<Rightarrow> byte list \<Rightarrow> rgba \<Rightarrow> (int \<times> int) list \<Rightarrow> (int \<times> int) set"
  for width height data src seeds where
  seed: "p \<in> set seeds \<Longrightarrow> inside width height p \<Longrightarrow> pixel_at width data p = src
           \<Longrightarrow> p \<in> region width height data src seeds"
| step: "p \<in> region width height data src seeds \<Longrightarrow> q \<in> set (neighbours p)
           \<Longrightarrow> inside width height q \<Longrightarrow> pixel_at width data q = src
           \<Longrightarrow> q \<in> region width height data src seeds"

text \<open>
  The byte offset of a pixel, the buffer after the four writes of lines 119-122, and the
  pixels that still have the start colour (their number decreases with every write).
\<close>

definition offset :: "nat \<Rightarrow> int \<times> int \<Rightarrow> nat" where
  "offset w p = nat ((snd p * int w + fst p) * 4)"

definition recolour :: "byte list \<Rightarrow> nat \<Rightarrow> rgba \<Rightarrow> byte list" where
  "recolour data idx c =
     (case c of (r, g, b, a) \<Rightarrow> data[idx := r, idx + 1 := g, idx + 2 := b, idx + 3 := a])"

definition todo :: "nat \<Rightarrow> nat \<Rightarrow> byte list \<Rightarrow> rgba \<Rightarrow> (int \<times> int) set" where
  "todo w h data src = {q. inside w h q \<and> pixel_at w data q = src}"

definition alpha :: "rgba \<Rightarrow> byte" where
  "alpha c = (case c of (r, g, b, a) \<Rightarrow> a)"

text \<open>
  Two buffers used in the examples: a 3 by 3 checkerboard of the opaque colours
  \<open>A = (1, 1, 1)\<close> and \<open>B = (2, 2, 2)\<close>, and a row of four pixels of one RGB value of which
  the third is opaque and the others half transparent.
\<close>

definition checker :: "byte list" where
  "checker = concat [[1,1,1,255], [2,2,2,255], [1,1,1,255],
                     [2,2,2,255], [1,1,1,255], [2,2,2,255],
                     [1,1,1,255], [2,2,2,255], [1,1,1,255]]"

definition faded :: "byte list" where
  "faded = concat [[9, 9, 9, 128], [9, 9, 9, 128], [9, 9, 9, 255], [9, 9, 9, 128]]"

section \<open>Runtime preview (game loop)\<close>

text \<open>
  The simulation state \<open>gameState.current\<close>: the player, the bitmaps bound at load (of a
  bitmap only its size is read by the loop) and the frame count of each movement state.
  The camera is never read and is left out.
\<close>

datatype movement = Idle | Run | Jump

record player =
  pos_x :: rat
  pos_y :: rat
  vx :: rat
  vy :: rat
  p_width :: rat
  p_height :: rat
  state :: movement
  facingRight :: bool
  grounded :: bool
  frameIndex :: nat
  frameTimer :: nat

record image =
  img_width :: nat
  img_height :: nat

record assets =
  a_idle :: "image option"
  a_run :: "image option"
  a_jump :: "image option"
  a_tile :: "image option"
  a_bg :: "image option"
  a_enemy :: "image option"

record meta =
  idleFrames :: nat
  runFrames :: nat
  jumpFrames :: nat

record game =
  g_player :: player
  g_assets :: assets
  g_meta :: meta

text \<open>The input flags \<open>keys\<close> that the loop reads (\<open>up\<close> and \<open>down\<close> are never read).\<close>

record keys =
  key_left :: bool
  key_right :: bool
  key_space :: bool

text \<open>Lines 169-176: one unit of horizontal impulse per held direction.\<close>

definition apply_input :: "keys \<Rightarrow> player \<Rightarrow> player" where
  "apply_input k p =
     (let p1 = (if key_right k then p\<lparr>vx := vx p + 1, facingRight := True\<rparr> else p)
      in if key_left k then p1\<lparr>vx := vx p1 - 1, facingRight := False\<rparr> else p1)"

text \<open>Lines 178-182, with \<open>friction = 0.8\<close> and \<open>gravity = 0.8\<close>.\<close>

definition apply_physics :: "player \<Rightarrow> player" where
  "apply_physics p =
     (let vx1 = vx p * (8 / 10);
          vy1 = vy p + 8 / 10
      in p\<lparr>vx := vx1, vy := vy1, pos_x := pos_x p + vx1, pos_y := pos_y p + vy1\<rparr>)"

text \<open>Lines 185-192: the floor, a flat plane at \<open>floorY = canvas.height - 64\<close>.\<close>

definition floor_collision :: "rat \<Rightarrow> player \<Rightarrow> player" where
  "floor_collision floorY p =
     (if pos_y p + p_height p > floorY
      then p\<lparr>pos_y := floorY - p_height p, vy := 0, grounded := True\<rparr>
      else p\<lparr>grounded := False\<rparr>)"

text \<open>Lines 195-198, with \<open>jumpForce = -15\<close>.\<close>

definition jump_input :: "keys \<Rightarrow> player \<Rightarrow> player" where
  "jump_input k p =
     (if key_space k \<and> grounded p then p\<lparr>vy := - 15, grounded := False\<rparr> else p)"

text \<open>Lines 201-207.\<close>

definition state_machine :: "player \<Rightarrow> player" where
  "state_machine p =
     (if \<not> grounded p then p\<lparr>state := Jump\<rparr>
      else if \<bar>vx p\<bar> > 5 / 10 then p\<lparr>state := Run\<rparr>
      else p\<lparr>state := Idle\<rparr>)"

text \<open>
  Lines 239-244: the platform test. It stands in the branch that draws the tiles
  (\<open>if (state.assets.tile)\<close>, line 222), after the jump and the state machine.
\<close>

definition platform_overlap :: "rat \<Rightarrow> player \<Rightarrow> bool" where
  "platform_overlap floorY p =
     (pos_x p + 32 > 300 \<and> pos_x p < 396 \<and>
      pos_y p + 32 > floorY - 100 \<and> pos_y p + 32 < floorY - 90 \<and> vy p > 0)"

definition platform_collision :: "rat \<Rightarrow> player \<Rightarrow> player" where
  "platform_collision floorY p =
     (if platform_overlap floorY p
      then p\<lparr>pos_y := floorY - 100 - 32, vy := 0, grounded := True\<rparr>
      else p)"

text \<open>Lines 257-266: the bitmap and the frame count of the movement state.\<close>

definition current_sprite :: "game \<Rightarrow> movement \<Rightarrow> image option \<times> nat" where
  "current_sprite g st =
     (if st = Run then (a_run (g_assets g), runFrames (g_meta g))
      else if st = Jump then (a_jump (g_assets g), jumpFrames (g_meta g))
      else (a_idle (g_assets g), idleFrames (g_meta g)))"

text \<open>Lines 270-274: the frame timer and the frame index.\<close>

definition update_animation :: "nat \<Rightarrow> player \<Rightarrow> player" where
  "update_animation totalFrames p =
     (let p1 = p\<lparr>frameTimer := frameTimer p + 1\<rparr>
      in if frameTimer p1 > 8
         then p1\<lparr>frameIndex := (frameIndex p1 + 1) mod totalFrames, frameTimer := 0\<rparr>
         else p1)"

text \<open>
  One call of \<open>loop\<close> (lines 157-306) on a canvas of the given height, with a drawing
  context present. Only the drawing of the player is kept of the rendering: the state
  after the tick, and the source rectangle \<open>(sx, sy, sw, sh)\<close> of the player's
  \<open>drawImage\<close> (lines 285-289) when the movement state has a bitmap.
\<close>

definition loop_player :: "rat \<Rightarrow> keys \<Rightarrow> game \<Rightarrow> player" where
  "loop_player floorY k g =
     (let p1 = state_machine (jump_input k (floor_collision floorY
                 (apply_physics (apply_input k (g_player g)))))
      in if a_tile (g_assets g) \<noteq> None then platform_collision floorY p1 else p1)"

definition loop :: "nat \<Rightarrow> keys \<Rightarrow> game \<Rightarrow> game \<times> (rat \<times> rat \<times> rat \<times> rat) option" where
  "loop canvasHeight k g =
     (let floorY = of_nat canvasHeight - 64;
          p = loop_player floorY k g;
          (currentImg, totalFrames) = current_sprite g (state p)
      in case currentImg of
           None \<Rightarrow> (g\<lparr>g_player := p\<rparr>, None)
         | Some img \<Rightarrow>
             (let p' = update_animation totalFrames p;
                  frameW = of_nat (img_width img) / of_nat totalFrames;
                  frameH = of_nat (img_height img)
              in (g\<lparr>g_player := p'\<rparr>, Some (of_nat (frameIndex p') * frameW, 0, frameW, frameH))))"

text \<open>The loop run over the input flags of successive ticks, first tick first.\<close>

fun run_loop :: "nat \<Rightarrow> keys list \<Rightarrow> game \<Rightarrow> game" where
  "run_loop canvasHeight [] g = g"
| "run_loop canvasHeight (k # ks) g = run_loop canvasHeight ks (fst (loop canvasHeight k g))"

text \<open>
  The player as \<open>useRef\<close> creates it (lines 27-39) with the position that
  \<open>loadGameAssets\<close> resets (lines 66-69).
\<close>

definition initial_player :: player where
  "initial_player =
     \<lparr>pos_x = 100, pos_y = 200, vx = 0, vy = 0, p_width = 32, p_height = 32, state = Idle,
      facingRight = True, grounded = False, frameIndex = 0, frameTimer = 0\<rparr>"

text \<open>
  What lines 270-274 do to the pair \<open>(frameIndex, frameTimer)\<close>, for the frame count
  \<open>totalFrames\<close> of the tick.
\<close>

definition frame_clock :: "nat \<Rightarrow> nat \<times> nat \<Rightarrow> nat \<times> nat" where
  "frame_clock totalFrames c =
     (case c of (i, t) \<Rightarrow> if t + 1 > 8 then ((i + 1) mod totalFrames, 0) else (i, t + 1))"

text \<open>
  A loaded preview used in the examples: an idle strip of one 32 by 32 frame, run and jump
  strips of four frames, the tile bitmap as given, no background and no enemy; and
  three settings of the input flags. The canvas of the preview is 800 by 450 (line 343).
\<close>

definition preview_game :: "image option \<Rightarrow> game" where
  "preview_game tile =
     \<lparr>g_player = initial_player,
      g_assets = \<lparr>a_idle = Some \<lparr>img_width = 32, img_height = 32\<rparr>,
                  a_run = Some \<lparr>img_width = 128, img_height = 32\<rparr>,
                  a_jump = Some \<lparr>img_width = 128, img_height = 32\<rparr>,
                  a_tile = tile, a_bg = None, a_enemy = None\<rparr>,
      g_meta = \<lparr>idleFrames = 1, runFrames = 4, jumpFrames = 4\<rparr>\<rparr>"

definition no_keys :: keys where
  "no_keys = \<lparr>key_left = False, key_right = False, key_space = False\<rparr>"

definition hold_right :: keys where
  "hold_right = \<lparr>key_left = False, key_right = True, key_space = False\<rparr>"

definition hold_right_space :: keys where
  "hold_right_space = \<lparr>key_left = False, key_right = True, key_space = True\<rparr>"

section \<open>Facts about the timeline editor\<close>

lemma filter_zip_all:
  "length ns = length xs \<Longrightarrow> \<forall>n\<in>set ns. P n \<Longrightarrow>
     map fst (filter (\<lambda>(f, i). P i) (zip xs ns)) = xs"
proof (induction xs arbitrary: ns)
  case Nil
  then show ?case by simp
next
  case (Cons x xs)
  then obtain n ns' where "ns = n # ns'" by (cases ns) auto
  with Cons show ?case by simp
qed

lemma filter_index_shift:
  "map fst (filter (\<lambda>(f, i). i \<noteq> k + idx) (zip xs [k..<k + length xs])) =
     (if idx < length xs then take idx xs @ drop (Suc idx) xs else xs)"
proof (induction xs arbitrary: k idx)
  case Nil
  then show ?case by simp
next
  case (Cons x xs)
  have up: "[k..<k + length (x # xs)] = k # [Suc k..<Suc k + length xs]"
    by (simp add: upt_rec)
  show ?case
  proof (cases idx)
    case 0
    have "map fst (filter (\<lambda>(f, i). i \<noteq> k) (zip xs [Suc k..<Suc k + length xs])) = xs"
      by (rule filter_zip_all) (simp_all del: upt_Suc)
    with 0 show ?thesis unfolding up by simp
  next
    case (Suc j)
    have "map fst (filter (\<lambda>(f, i). i \<noteq> Suc k + j) (zip xs [Suc k..<Suc k + length xs])) =
          (if j < length xs then take j xs @ drop (Suc j) xs else xs)"
      by (rule Cons.IH)
    with Suc show ?thesis unfolding up by simp
  qed
qed

lemma filter_index_remove:
  "filter_index (\<lambda>i. i \<noteq> idx) xs = (if idx < length xs then take idx xs @ drop (Suc idx) xs else xs)"
  using filter_index_shift [of 0 idx xs] by (simp add: filter_index_def)

lemma length_filter_index_remove:
  "length (filter_index (\<lambda>i. i \<noteq> idx) xs) = (if idx < length xs then length xs - 1 else length xs)"
  by (simp add: filter_index_remove) 

lemma length_deleteFrame:
  "length (frames (deleteFrame idx t)) =
     (if 1 < length (frames t) \<and> idx < length (frames t) then length (frames t) - 1
      else length (frames t))"
  by (simp add: deleteFrame_def Let_def length_filter_index_remove)

lemma deleteFrames_nonempty:
  "1 \<le> length (frames t) \<Longrightarrow> 1 \<le> length (frames (deleteFrames idxs t))"
proof (induction idxs arbitrary: t)
  case Nil
  then show ?case by simp
next
  case (Cons idx idxs)
  have "1 \<le> length (frames (deleteFrame idx t))"
    using Cons.prems by (auto simp: length_deleteFrame)
  then show ?case using Cons.IH by simp
qed

text \<open>
  C7. \<open>deleteFrame\<close> leaves a one-frame timeline as it is; on a longer timeline it removes
  element \<open>i\<close>, and a selection that is past the end of the new sequence is set to its
  last index; no sequence of deletes takes a non-empty timeline below one frame.
\<close>

theorem deleteFrame_spec:
  fixes t :: "'a timeline"
  shows "(length (frames t) = 1 \<longrightarrow> deleteFrame i t = t)
       \<and> (1 < length (frames t) \<and> i < length (frames t) \<longrightarrow>
            frames (deleteFrame i t) = take i (frames t) @ drop (Suc i) (frames t)
          \<and> selectedFrameIdx (deleteFrame i t) =
              (if selectedFrameIdx t \<ge> length (frames (deleteFrame i t))
               then length (frames (deleteFrame i t)) - 1 else selectedFrameIdx t)
          \<and> selectedFrameIdx (deleteFrame i t) < length (frames (deleteFrame i t)))
       \<and> (1 \<le> length (frames t) \<longrightarrow> 1 \<le> length (frames (deleteFrames idxs t)))"
proof (intro conjI impI)
  assume "length (frames t) = 1"
  then show "deleteFrame i t = t" by (simp add: deleteFrame_def)
next
  assume h: "1 < length (frames t) \<and> i < length (frames t)"
  then show "frames (deleteFrame i t) = take i (frames t) @ drop (Suc i) (frames t)"
    by (simp add: deleteFrame_def Let_def filter_index_remove)
  from h show "selectedFrameIdx (deleteFrame i t) =
      (if selectedFrameIdx t \<ge> length (frames (deleteFrame i t))
       then length (frames (deleteFrame i t)) - 1 else selectedFrameIdx t)"
    by (simp add: deleteFrame_def Let_def)
  from h have "0 < length (frames (deleteFrame i t))"
    by (simp add: length_deleteFrame)
  with h show "selectedFrameIdx (deleteFrame i t) < length (frames (deleteFrame i t))"
    by (simp add: deleteFrame_def Let_def)
next
  assume "1 \<le> length (frames t)"
  then show "1 \<le> length (frames (deleteFrames idxs t))" by (rule deleteFrames_nonempty)
qed

theorem deleteFrame_spec_witness:
  "deleteFrame 0 \<lparr>frames = [''a''], selectedFrameIdx = 0\<rparr>
     = \<lparr>frames = [''a''], selectedFrameIdx = 0\<rparr>
   \<and> frames (deleteFrame 2 \<lparr>frames = [''a'', ''b'', ''c''], selectedFrameIdx = 2\<rparr>) = [''a'', ''b'']
   \<and> selectedFrameIdx (deleteFrame 2 \<lparr>frames = [''a'', ''b'', ''c''], selectedFrameIdx = 2\<rparr>) = 1
   \<and> 1 \<le> length (frames (deleteFrames [0, 0, 0, 0]
              \<lparr>frames = [''a'', ''b'', ''c''], selectedFrameIdx = 2\<rparr>))"
  using deleteFrame_spec [of "\<lparr>frames = [''a''], selectedFrameIdx = 0\<rparr>" 0 "[]"]
        deleteFrame_spec [of "\<lparr>frames = [''a'', ''b'', ''c''], selectedFrameIdx = 2\<rparr>" 2 "[0, 0, 0, 0]"]
  by simp

text \<open>
  C8. For an index \<open>i\<close> of the timeline and \<open>d\<close> one of \<open>-1\<close>, \<open>+1\<close>: when \<open>i + d\<close> is an index,
  \<open>moveFrame i d\<close> swaps the elements \<open>i\<close> and \<open>i + d\<close> and selects \<open>i + d\<close>; otherwise it
  changes nothing; and moving back from \<open>i + d\<close> by \<open>-d\<close> restores the frame order.
\<close>

theorem moveFrame_spec:
  fixes t :: "'a timeline"
  assumes "i < length (frames t)" and "d = 1 \<or> d = - 1"
  shows "(0 \<le> int i + d \<and> int i + d < int (length (frames t)) \<longrightarrow>
            frames (moveFrame i d t) =
              (frames t)[i := frames t ! nat (int i + d), nat (int i + d) := frames t ! i]
          \<and> selectedFrameIdx (moveFrame i d t) = nat (int i + d)
          \<and> frames (moveFrame (nat (int i + d)) (- d) (moveFrame i d t)) = frames t)
       \<and> (\<not> (0 \<le> int i + d \<and> int i + d < int (length (frames t))) \<longrightarrow> moveFrame i d t = t)"
proof (intro conjI impI)
  assume inb: "0 \<le> int i + d \<and> int i + d < int (length (frames t))"
  define j where "j = nat (int i + d)"
  have j: "j < length (frames t)" "int j = int i + d" using inb by (auto simp: j_def)
  have ret: "int j + - d = int i" using j by simp
  show "frames (moveFrame i d t) =
      (frames t)[i := frames t ! nat (int i + d), nat (int i + d) := frames t ! i]"
    using inb by (simp add: moveFrame_def Let_def)
  show "selectedFrameIdx (moveFrame i d t) = nat (int i + d)"
    using inb by (simp add: moveFrame_def Let_def)
  have fr: "frames (moveFrame i d t) = (frames t)[i := frames t ! j, j := frames t ! i]"
    using inb by (simp add: moveFrame_def Let_def j_def)
  have "frames (moveFrame j (- d) (moveFrame i d t)) =
      (frames (moveFrame i d t))[j := frames (moveFrame i d t) ! i, i := frames (moveFrame i d t) ! j]"
    using assms(1) j ret by (simp add: moveFrame_def Let_def fr)
  also have "\<dots> = frames t"
    using assms(1) j by (auto simp: fr list_eq_iff_nth_eq nth_list_update)
  finally show "frames (moveFrame (nat (int i + d)) (- d) (moveFrame i d t)) = frames t"
    by (simp add: j_def)
next
  assume "\<not> (0 \<le> int i + d \<and> int i + d < int (length (frames t)))"
  then show "moveFrame i d t = t" by (auto simp: moveFrame_def Let_def)
qed

theorem moveFrame_spec_witness:
  "frames (moveFrame 1 1 \<lparr>frames = [''a'', ''b'', ''c''], selectedFrameIdx = 1\<rparr>) = [''a'', ''c'', ''b'']
   \<and> selectedFrameIdx (moveFrame 1 1 \<lparr>frames = [''a'', ''b'', ''c''], selectedFrameIdx = 1\<rparr>) = 2
   \<and> frames (moveFrame 2 (- 1) (moveFrame 1 1 \<lparr>frames = [''a'', ''b'', ''c''], selectedFrameIdx = 1\<rparr>))
       = [''a'', ''b'', ''c'']
   \<and> moveFrame 0 (- 1) \<lparr>frames = [''a'', ''b'', ''c''], selectedFrameIdx = 1\<rparr>
       = \<lparr>frames = [''a'', ''b'', ''c''], selectedFrameIdx = 1\<rparr>"
  using moveFrame_spec [of 1 "\<lparr>frames = [''a'', ''b'', ''c''], selectedFrameIdx = 1\<rparr>" 1]
        moveFrame_spec [of 0 "\<lparr>frames = [''a'', ''b'', ''c''], selectedFrameIdx = 1\<rparr>" "- 1"]
  by simp

section \<open>Facts about the slicer and the stitcher\<close>













section \<open>Facts about the flood fill\<close>

lemma region_inside_src:
  "p \<in> region w h data src S \<Longrightarrow> inside w h p \<and> pixel_at w data p = src"
  by (induction rule: region.induct) simp_all

lemma region_skip:
  assumes "\<not> (inside w h p \<and> pixel_at w data p = src)"
  shows "region w h data src (p # rest) = region w h data src rest"
proof (intro set_eqI iffI)
  fix q assume "q \<in> region w h data src (p # rest)"
  then show "q \<in> region w h data src rest"
  proof (induction rule: region.induct)
    case (seed q)
    with assms have "q \<in> set rest" by auto
    then show ?case using seed(2,3) by (rule region.seed)
  next
    case (step q r)
    from step(5) step(2,3,4) show ?case by (rule region.step)
  qed
next
  fix q assume "q \<in> region w h data src rest"
  then show "q \<in> region w h data src (p # rest)"
  proof (induction rule: region.induct)
    case (seed q)
    then have "q \<in> set (p # rest)" by simp
    then show ?case using seed(2,3) by (rule region.seed)
  next
    case (step q r)
    from step(5) step(2,3,4) show ?case by (rule region.step)
  qed
qed

lemma offset_inj:
  assumes "inside w h p" and "inside w h q"
    and "snd p * int w + fst p = snd q * int w + fst q"
  shows "p = q"
proof -
  have "(snd p * int w + fst p) div int w = snd p" "(snd p * int w + fst p) mod int w = fst p"
    using assms(1) by (simp_all add: inside_def)
  moreover have "(snd q * int w + fst q) div int w = snd q" "(snd q * int w + fst q) mod int w = fst q"
    using assms(2) by (simp_all add: inside_def)
  ultimately show ?thesis using assms(3) by (simp add: prod_eq_iff)
qed

lemma offset_bound:
  assumes "inside w h p"
  shows "0 \<le> snd p * int w + fst p" and "snd p * int w + fst p < int (w * h)"
proof -
  show "0 \<le> snd p * int w + fst p" using assms by (simp add: inside_def)
  have "snd p + 1 \<le> int h" using assms by (simp add: inside_def)
  then have "(snd p + 1) * int w \<le> int h * int w" by (intro mult_right_mono) simp_all
  then show "snd p * int w + fst p < int (w * h)"
    using assms by (simp add: inside_def algebra_simps)
qed

lemma block_update:
  fixes d :: "'a list"
  assumes "4 * i + 3 < length d"
  shows "(d[4 * i := r, 4 * i + 1 := g, 4 * i + 2 := b, 4 * i + 3 := a] ! (4 * j),
          d[4 * i := r, 4 * i + 1 := g, 4 * i + 2 := b, 4 * i + 3 := a] ! (4 * j + 1),
          d[4 * i := r, 4 * i + 1 := g, 4 * i + 2 := b, 4 * i + 3 := a] ! (4 * j + 2),
          d[4 * i := r, 4 * i + 1 := g, 4 * i + 2 := b, 4 * i + 3 := a] ! (4 * j + 3)) =
         (if i = j then (r, g, b, a) else (d ! (4 * j), d ! (4 * j + 1), d ! (4 * j + 2), d ! (4 * j + 3)))"
proof (cases "i = j")
  case True
  then show ?thesis using assms by simp
next
  case False
  have ne: "4 * i + a' \<noteq> 4 * j + b'" if "a' < 4" "b' < 4" for a' b' :: nat
    using False that by linarith
  have "d[4 * i := r, 4 * i + 1 := g, 4 * i + 2 := b, 4 * i + 3 := a] ! (4 * j + b') = d ! (4 * j + b')"
    if "b' < 4" for b'
    using ne [of 0 b'] ne [of 1 b'] ne [of 2 b'] ne [of 3 b'] that by simp
  from this [of 0] this [of 1] this [of 2] this [of 3] False show ?thesis by simp
qed

lemma pixel_at_recolour:
  assumes "length data = 4 * w * h" and "inside w h p" and "inside w h q"
  shows "pixel_at w (recolour data (offset w p) c) q =
           (if q = p then c else pixel_at w data q)"
proof -
  define i where "i = nat (snd p * int w + fst p)"
  define j where "j = nat (snd q * int w + fst q)"
  have i: "nat ((snd p * int w + fst p) * 4) = 4 * i" "i < w * h"
    using offset_bound [OF assms(2)] by (simp_all add: i_def nat_mult_distrib nat_less_iff)
  have j: "nat ((snd q * int w + fst q) * 4) = 4 * j" "j < w * h"
    using offset_bound [OF assms(3)] by (simp_all add: j_def nat_mult_distrib nat_less_iff)
  have eq: "i = j \<longleftrightarrow> q = p"
    using offset_inj [OF assms(3,2)] offset_bound(1) [OF assms(2)] offset_bound(1) [OF assms(3)]
    by (auto simp: i_def j_def)
  have len: "4 * i + 3 < length data" using i(2) assms(1) by simp
  obtain r g b a where c: "c = (r, g, b, a)" by (cases c)
  show ?thesis
    unfolding pixel_at_def recolour_def offset_def c Let_def i j prod.case
    using block_update [OF len, of r g b a j] eq by simp
qed

lemma length_recolour: "length (recolour data idx c) = length data"
  by (cases c) (simp add: recolour_def)


lemma fill_loop_Nil: "fill_loop w h src fill [] data = Some data"
  by (subst fill_loop.simps) simp

lemma fill_loop_Cons:
  "fill_loop w h src fill (p # rest) data =
     (if inside w h p \<and> pixel_at w data p = src
      then fill_loop w h src fill (neighbours p @ rest)
             (recolour data (offset w p) fill)
      else fill_loop w h src fill rest data)"
proof -
  obtain cx cy where p: "p = (cx, cy)" by (cases p)
  obtain sR sG sB sA where src: "src = (sR, sG, sB, sA)" by (cases src)
  obtain r g b a where fill: "fill = (r, g, b, a)" by (cases fill)
  show ?thesis
  proof (cases "inside w h p")
    case True
    then have nn: "0 \<le> (cy * int w + cx) * 4"
      using offset_bound(1) [OF True] by (simp add: p)
    have idx: "getPixel w h cx cy = (cy * int w + cx) * 4"
      using True by (auto simp: getPixel_def inside_def p)
    have ne: "(cy * int w + cx) * 4 \<noteq> - 1" using nn by linarith
    have sh: "nat ((cy * int w + cx) * 4 + 1) = nat ((cy * int w + cx) * 4) + 1"
      "nat ((cy * int w + cx) * 4 + 2) = nat ((cy * int w + cx) * 4) + 2"
      "nat ((cy * int w + cx) * 4 + 3) = nat ((cy * int w + cx) * 4) + 3"
      using nn by (simp_all add: nat_add_distrib)
    show ?thesis
      apply (subst fill_loop.simps)
      using True ne
      apply (simp only: p src fill list.case prod.case idx Let_def sh)
      apply (simp only: pixel_at_def recolour_def offset_def neighbours_def Let_def prod.case
          fst_conv snd_conv prod.inject append_Cons append_Nil)
      apply simp
      done
  next
    case False
    then have idx: "getPixel w h cx cy = - 1"
      by (auto simp: getPixel_def inside_def p)
    show ?thesis
      apply (subst fill_loop.simps)
      using False
      apply (simp only: p src fill list.case prod.case idx Let_def)
      apply simp
      done
  qed
qed

lemma region_recolour:
  assumes len: "length data = 4 * w * h" and p: "inside w h p" "pixel_at w data p = src"
    and ne: "src \<noteq> fill"
  defines "d2 \<equiv> recolour data (offset w p) fill"
  shows "region w h data src (p # rest) = insert p (region w h d2 src (neighbours p @ rest))"
    and "p \<notin> region w h d2 src (neighbours p @ rest)"
proof -
  have col: "pixel_at w d2 q = (if q = p then fill else pixel_at w data q)" if "inside w h q" for q
    unfolding d2_def by (rule pixel_at_recolour [OF len p(1) that])
  show notin: "p \<notin> region w h d2 src (neighbours p @ rest)"
    using region_inside_src [of p w h d2 src "neighbours p @ rest"] col [OF p(1)] ne by auto
  have top: "p \<in> region w h data src (p # rest)"
    by (rule region.seed) (simp_all add: p)
  show "region w h data src (p # rest) = insert p (region w h d2 src (neighbours p @ rest))"
  proof (intro set_eqI iffI)
    fix q assume "q \<in> region w h data src (p # rest)"
    then show "q \<in> insert p (region w h d2 src (neighbours p @ rest))"
    proof (induction rule: region.induct)
      case (seed q)
      show ?case
      proof (cases "q = p")
        case True
        then show ?thesis by simp
      next
        case False
        with seed(1) have "q \<in> set (neighbours p @ rest)" by simp
        moreover have "pixel_at w d2 q = src" using col [OF seed(2)] False seed(3) by simp
        ultimately have "q \<in> region w h d2 src (neighbours p @ rest)"
          using seed(2) by (intro region.seed)
        then show ?thesis by simp
      qed
    next
      case (step r q)
      show ?case
      proof (cases "q = p")
        case True
        then show ?thesis by simp
      next
        case False
        have cq: "pixel_at w d2 q = src" using col [OF step(3)] False step(4) by simp
        show ?thesis
        proof (cases "r = p")
          case True
          with step(2) have "q \<in> set (neighbours p @ rest)" by simp
          then have "q \<in> region w h d2 src (neighbours p @ rest)"
            using step(3) cq by (rule region.seed)
          then show ?thesis by simp
        next
          case False
          with step(5) have "r \<in> region w h d2 src (neighbours p @ rest)" by simp
          then have "q \<in> region w h d2 src (neighbours p @ rest)"
            using step(2,3) cq by (rule region.step)
          then show ?thesis by simp
        qed
      qed
    qed
  next
    fix q assume "q \<in> insert p (region w h d2 src (neighbours p @ rest))"
    then consider "q = p" | "q \<in> region w h d2 src (neighbours p @ rest)" by auto
    then show "q \<in> region w h data src (p # rest)"
    proof cases
      case 1
      then show ?thesis using top by simp
    next
      case 2
      then show ?thesis
      proof (induction rule: region.induct)
        case (seed q)
        have qp: "q \<noteq> p" using col [OF seed(2)] seed(3) ne by auto
        then have cq: "pixel_at w data q = src" using col [OF seed(2)] seed(3) by simp
        from seed(1) consider "q \<in> set (neighbours p)" | "q \<in> set rest" by auto
        then show ?case
        proof cases
          case 1
          with top show ?thesis using seed(2) cq by (rule region.step)
        next
          case 2
          then have "q \<in> set (p # rest)" by simp
          then show ?thesis using seed(2) cq by (rule region.seed)
        qed
      next
        case (step r q)
        have qp: "q \<noteq> p" using col [OF step(3)] step(4) ne by auto
        then have cq: "pixel_at w data q = src" using col [OF step(3)] step(4) by simp
        from step(5) step(2,3) cq show ?case by (rule region.step)
      qed
    qed
  qed
qed


lemma finite_todo: "finite (todo w h data src)"
proof -
  have "todo w h data src \<subseteq> {0..<int w} \<times> {0..<int h}"
    by (auto simp: todo_def inside_def)
  then show ?thesis by (rule finite_subset) simp
qed

lemma todo_recolour:
  assumes "length data = 4 * w * h" and "inside w h p" and "pixel_at w data p = src"
    and "src \<noteq> fill"
  shows "card (todo w h (recolour data (offset w p) fill) src)
           < card (todo w h data src)"
proof -
  have col: "pixel_at w (recolour data (offset w p) fill) q =
      (if q = p then fill else pixel_at w data q)" if "inside w h q" for q
    by (rule pixel_at_recolour [OF assms(1,2) that])
  have "todo w h (recolour data (offset w p) fill) src
      = todo w h data src - {p}"
  proof (intro set_eqI iffI)
    fix q assume "q \<in> todo w h (recolour data (offset w p) fill) src"
    then have q: "inside w h q" "pixel_at w (recolour data (offset w p) fill) q = src"
      by (simp_all add: todo_def)
    then have "q \<noteq> p" using col [OF q(1)] assms(4) by auto
    then show "q \<in> todo w h data src - {p}" using q col [OF q(1)] by (simp add: todo_def)
  next
    fix q assume "q \<in> todo w h data src - {p}"
    then have q: "inside w h q" "pixel_at w data q = src" "q \<noteq> p" by (simp_all add: todo_def)
    then show "q \<in> todo w h (recolour data (offset w p) fill) src"
      using col [OF q(1)] by (simp add: todo_def)
  qed
  moreover have "p \<in> todo w h data src" using assms by (simp add: todo_def)
  ultimately show ?thesis using finite_todo [of w h data src]
    by (simp only: card_Diff1_less)
qed

lemma fill_loop_correct:
  assumes "src \<noteq> fill" and "length data = 4 * w * h"
  shows "\<exists>d. fill_loop w h src fill stack data = Some d \<and> length d = length data
           \<and> (\<forall>q. inside w h q \<longrightarrow>
                 pixel_at w d q = (if q \<in> region w h data src stack then fill else pixel_at w data q))"
  using assms(2)
proof (induction "card (todo w h data src)" arbitrary: data stack rule: less_induct)
  case less
  note outer = less.hyps and len = less.prems
  show ?case
  proof (induction stack)
    case Nil
    have "region w h data src [] = {}"
      using region_inside_src [of _ w h data src "[]"]
      by (auto elim: region.induct)
    then show ?case by (simp add: fill_loop_Nil)
  next
    case (Cons p rest)
    show ?case
    proof (cases "inside w h p \<and> pixel_at w data p = src")
      case False
      then have "fill_loop w h src fill (p # rest) data = fill_loop w h src fill rest data"
        by (subst fill_loop_Cons) auto
      moreover have "region w h data src (p # rest) = region w h data src rest"
        using False by (rule region_skip)
      ultimately show ?thesis using Cons.IH by simp
    next
      case True
      define d2 where "d2 = recolour data (offset w p) fill"
      have len2: "length d2 = 4 * w * h" by (simp add: d2_def length_recolour len)
      have smaller: "card (todo w h d2 src) < card (todo w h data src)"
        unfolding d2_def using len True assms(1) by (intro todo_recolour) simp_all
      obtain d where d: "fill_loop w h src fill (neighbours p @ rest) d2 = Some d"
          "length d = length d2"
          "\<forall>q. inside w h q \<longrightarrow> pixel_at w d q =
             (if q \<in> region w h d2 src (neighbours p @ rest) then fill else pixel_at w d2 q)"
        using outer [OF smaller len2, of "neighbours p @ rest"] by blast
      have unfold: "fill_loop w h src fill (p # rest) data = Some d"
        using True d(1) by (subst fill_loop_Cons) (simp add: d2_def)
      have reg: "region w h data src (p # rest) = insert p (region w h d2 src (neighbours p @ rest))"
        unfolding d2_def using len True assms(1) by (intro region_recolour(1)) simp_all
      have col: "pixel_at w d2 q = (if q = p then fill else pixel_at w data q)" if "inside w h q" for q
        unfolding d2_def using len True that by (intro pixel_at_recolour) simp_all
      have "pixel_at w d q = (if q \<in> region w h data src (p # rest) then fill else pixel_at w data q)"
        if "inside w h q" for q
        using d(3) [rule_format, OF that] col [OF that] reg by auto
      then show ?thesis using unfold d(2) len2 len by simp
    qed
  qed
qed


lemma floodFill_inside:
  assumes "inside w h (x, y)"
  shows "floodFill w h x y (r, g, b) data =
           (if pixel_at w data (x, y) = (r, g, b, 255) then Some data
            else fill_loop w h (pixel_at w data (x, y)) (r, g, b, 255) [(x, y)] data)"
proof -
  have nn: "0 \<le> (y * int w + x) * 4"
    using offset_bound(1) [OF assms] by simp
  have idx: "getPixel w h x y = (y * int w + x) * 4"
    using assms by (auto simp: getPixel_def inside_def)
  have ne: "(y * int w + x) * 4 \<noteq> - 1" using nn by linarith
  have sh: "nat ((y * int w + x) * 4 + 1) = nat ((y * int w + x) * 4) + 1"
    "nat ((y * int w + x) * 4 + 2) = nat ((y * int w + x) * 4) + 2"
    "nat ((y * int w + x) * 4 + 3) = nat ((y * int w + x) * 4) + 3"
    using nn by (simp_all add: nat_add_distrib)
  show ?thesis
    using ne
    apply (simp only: floodFill_def prod.case idx Let_def sh pixel_at_def fst_conv snd_conv
        prod.inject)
    apply simp
    done
qed

lemma floodFill_correct:
  assumes "inside w h (x, y)" and "length data = 4 * w * h"
  shows "\<exists>d. floodFill w h x y (r, g, b) data = Some d \<and> length d = length data
     \<and> (pixel_at w data (x, y) = (r, g, b, 255) \<longrightarrow> d = data)
     \<and> (pixel_at w data (x, y) \<noteq> (r, g, b, 255) \<longrightarrow>
          (\<forall>q. inside w h q \<longrightarrow> pixel_at w d q =
             (if q \<in> region w h data (pixel_at w data (x, y)) [(x, y)] then (r, g, b, 255)
              else pixel_at w data q)))"
proof (cases "pixel_at w data (x, y) = (r, g, b, 255)")
  case True
  then show ?thesis by (simp add: floodFill_inside [OF assms(1)])
next
  case False
  from fill_loop_correct [OF False assms(2), of "[(x, y)]"]
  show ?thesis using False by (simp add: floodFill_inside [OF assms(1)])
qed

lemma start_in_region:
  assumes "inside w h (x, y)"
  shows "(x, y) \<in> region w h data (pixel_at w data (x, y)) [(x, y)]"
  using assms by (intro region.seed) simp_all

text \<open>
  C4. For a start pixel inside the canvas, the fill returns; the buffer is unchanged when
  the start colour equals the fill colour (with alpha 255) in all four channels; otherwise
  a pixel of the result has the fill colour exactly when it belongs to the region of the
  start pixel, the pixels joined to it by steps to the four axis neighbours through pixels
  of exactly the start colour, and every other pixel keeps its colour.
\<close>

theorem floodFill_region:
  assumes "inside w h (x, y)" and "length data = 4 * w * h"
  shows "\<exists>d. floodFill w h x y (r, g, b) data = Some d \<and> length d = length data
     \<and> (pixel_at w data (x, y) = (r, g, b, 255) \<longrightarrow> d = data)
     \<and> (pixel_at w data (x, y) \<noteq> (r, g, b, 255) \<longrightarrow>
          (\<forall>q. inside w h q \<longrightarrow> pixel_at w d q =
             (if q \<in> region w h data (pixel_at w data (x, y)) [(x, y)] then (r, g, b, 255)
              else pixel_at w data q)))"
  using assms by (rule floodFill_correct)

theorem floodFill_region_witness:
  "inside 3 3 (0, 0) \<and> length checker = 4 * 3 * 3
   \<and> floodFill 3 3 0 0 (3, 3, 3) checker =
       Some (concat [[3, 3, 3, 255], [2, 2, 2, 255], [1, 1, 1, 255],
                     [2, 2, 2, 255], [1, 1, 1, 255], [2, 2, 2, 255],
                     [1, 1, 1, 255], [2, 2, 2, 255], [1, 1, 1, 255]])
   \<and> floodFill 3 3 0 0 (1, 1, 1) checker = Some checker"
proof -
  have hyp: "inside 3 3 (0, 0)" "length checker = 4 * 3 * 3"
    by (simp_all add: inside_def checker_def)
  have run: "floodFill 3 3 0 0 (3, 3, 3) checker =
       Some (concat [[3, 3, 3, 255], [2, 2, 2, 255], [1, 1, 1, 255],
                     [2, 2, 2, 255], [1, 1, 1, 255], [2, 2, 2, 255],
                     [1, 1, 1, 255], [2, 2, 2, 255], [1, 1, 1, 255]])"
    by (simp add: floodFill_def checker_def fill_loop.simps getPixel_def)
  have same: "pixel_at 3 checker (0, 0) = (1, 1, 1, 255)"
    by (simp add: pixel_at_def checker_def)
  have noop: "floodFill 3 3 0 0 (1, 1, 1) checker = Some checker"
    using floodFill_region [OF hyp, of 1 1 1] same by auto
  show ?thesis using hyp run noop by simp
qed

text \<open>
  C5. For a start pixel inside the canvas, filling the result of a fill again, at the same
  pixel with the same colour, returns that result unchanged.
\<close>

theorem floodFill_idempotent:
  assumes "inside w h (x, y)" and "length data = 4 * w * h"
  shows "\<exists>d. floodFill w h x y (r, g, b) data = Some d
           \<and> floodFill w h x y (r, g, b) d = Some d"
proof -
  obtain d where d: "floodFill w h x y (r, g, b) data = Some d" "length d = length data"
      "pixel_at w data (x, y) = (r, g, b, 255) \<longrightarrow> d = data"
      "pixel_at w data (x, y) \<noteq> (r, g, b, 255) \<longrightarrow>
          (\<forall>q. inside w h q \<longrightarrow> pixel_at w d q =
             (if q \<in> region w h data (pixel_at w data (x, y)) [(x, y)] then (r, g, b, 255)
              else pixel_at w data q))"
    using floodFill_correct [OF assms, of r g b] by blast
  have "pixel_at w d (x, y) = (r, g, b, 255)"
  proof (cases "pixel_at w data (x, y) = (r, g, b, 255)")
    case True
    then show ?thesis using d(3) by simp
  next
    case False
    then show ?thesis using d(4) assms(1) start_in_region [OF assms(1), of data] by simp
  qed
  then have "floodFill w h x y (r, g, b) d = Some d"
    by (simp add: floodFill_inside [OF assms(1)])
  then show ?thesis using d(1) by simp
qed

theorem floodFill_idempotent_witness:
  "inside 3 3 (0, 0) \<and> length checker = 4 * 3 * 3
   \<and> floodFill 3 3 0 0 (3, 3, 3) (the (floodFill 3 3 0 0 (3, 3, 3) checker))
       = floodFill 3 3 0 0 (3, 3, 3) checker
   \<and> floodFill 3 3 0 0 (3, 3, 3) checker \<noteq> None"
proof -
  have hyp: "inside 3 3 (0, 0)" "length checker = 4 * 3 * 3"
    by (simp_all add: inside_def checker_def)
  show ?thesis using hyp floodFill_idempotent [OF hyp, of 3 3 3] by auto
qed

text \<open>
  C10. Every pixel that the fill changes is fully opaque in the result. The test that
  skips the fill compares the start pixel with the fill colour at alpha 255, so for a
  start pixel with the RGB of the fill colour and an alpha other than 255 the fill
  proceeds: the start pixel and every pixel of its region become the fill colour with
  alpha 255.
\<close>

theorem floodFill_opaque:
  assumes "inside w h (x, y)" and "length data = 4 * w * h"
  shows "\<exists>d. floodFill w h x y (r, g, b) data = Some d
     \<and> (\<forall>q. inside w h q \<and> pixel_at w d q \<noteq> pixel_at w data q \<longrightarrow>
            pixel_at w d q = (r, g, b, 255) \<and> alpha (pixel_at w d q) = 255)
     \<and> (\<forall>a0. pixel_at w data (x, y) = (r, g, b, a0) \<and> a0 \<noteq> 255 \<longrightarrow>
            pixel_at w d (x, y) = (r, g, b, 255)
          \<and> (\<forall>q \<in> region w h data (r, g, b, a0) [(x, y)]. pixel_at w d q = (r, g, b, 255)
                \<and> alpha (pixel_at w d q) = 255))"
proof -
  obtain d where d: "floodFill w h x y (r, g, b) data = Some d" "length d = length data"
      "pixel_at w data (x, y) = (r, g, b, 255) \<longrightarrow> d = data"
      "pixel_at w data (x, y) \<noteq> (r, g, b, 255) \<longrightarrow>
          (\<forall>q. inside w h q \<longrightarrow> pixel_at w d q =
             (if q \<in> region w h data (pixel_at w data (x, y)) [(x, y)] then (r, g, b, 255)
              else pixel_at w data q))"
    using floodFill_correct [OF assms, of r g b] by blast
  have changed: "pixel_at w d q = (r, g, b, 255) \<and> alpha (pixel_at w d q) = 255"
    if "inside w h q \<and> pixel_at w d q \<noteq> pixel_at w data q" for q
  proof (cases "pixel_at w data (x, y) = (r, g, b, 255)")
    case True
    then show ?thesis using d(3) that by simp
  next
    case False
    then have "pixel_at w d q =
        (if q \<in> region w h data (pixel_at w data (x, y)) [(x, y)] then (r, g, b, 255)
         else pixel_at w data q)"
      using d(4) that by blast
    then have "pixel_at w d q = (r, g, b, 255)"
      using that by (cases "q \<in> region w h data (pixel_at w data (x, y)) [(x, y)]") simp_all
    then show ?thesis by (simp add: alpha_def)
  qed
  have translucent: "pixel_at w d (x, y) = (r, g, b, 255)
      \<and> (\<forall>q \<in> region w h data (r, g, b, a0) [(x, y)]. pixel_at w d q = (r, g, b, 255)
            \<and> alpha (pixel_at w d q) = 255)"
    if st: "pixel_at w data (x, y) = (r, g, b, a0) \<and> a0 \<noteq> 255" for a0
  proof -
    have ne: "pixel_at w data (x, y) \<noteq> (r, g, b, 255)" using st by simp
    have all: "\<forall>q. inside w h q \<longrightarrow> pixel_at w d q =
        (if q \<in> region w h data (r, g, b, a0) [(x, y)] then (r, g, b, 255) else pixel_at w data q)"
      using d(4) ne st by simp
    have reg: "pixel_at w d q = (r, g, b, 255) \<and> alpha (pixel_at w d q) = 255"
      if "q \<in> region w h data (r, g, b, a0) [(x, y)]" for q
    proof -
      have "inside w h q" using region_inside_src [OF that] by simp
      then have "pixel_at w d q = (r, g, b, 255)"
        using all [rule_format, of q] that by simp
      then show ?thesis by (simp add: alpha_def)
    qed
    have "(x, y) \<in> region w h data (r, g, b, a0) [(x, y)]"
      using start_in_region [OF assms(1), of data] st by simp
    then show ?thesis using reg by blast
  qed
  show ?thesis using d(1) changed translucent by blast
qed

theorem floodFill_opaque_witness:
  "inside 4 1 (0, 0) \<and> length faded = 4 * 4 * 1
   \<and> pixel_at 4 faded (0, 0) = (9, 9, 9, 128) \<and> (128 :: byte) \<noteq> 255
   \<and> floodFill 4 1 0 0 (9, 9, 9) faded =
       Some (concat [[9, 9, 9, 255], [9, 9, 9, 255], [9, 9, 9, 255], [9, 9, 9, 128]])
   \<and> pixel_at 4 (the (floodFill 4 1 0 0 (9, 9, 9) faded)) (0, 0) = (9, 9, 9, 255)"
proof -
  have hyp: "inside 4 1 (0, 0)" "length faded = 4 * 4 * 1"
    by (simp_all add: inside_def faded_def)
  have st: "pixel_at 4 faded (0, 0) = (9, 9, 9, 128)" "(128 :: byte) \<noteq> 255"
    by (simp_all add: pixel_at_def faded_def)
  have run: "floodFill 4 1 0 0 (9, 9, 9) faded =
       Some (concat [[9, 9, 9, 255], [9, 9, 9, 255], [9, 9, 9, 255], [9, 9, 9, 128]])"
    by (simp add: floodFill_def faded_def fill_loop.simps getPixel_def)
  have "pixel_at 4 (the (floodFill 4 1 0 0 (9, 9, 9) faded)) (0, 0) = (9, 9, 9, 255)"
    using floodFill_opaque [OF hyp, of 9 9 9] st by auto
  then show ?thesis using hyp st run by simp
qed

section \<open>Facts about the playback scheduler\<close>




section \<open>Facts about the runtime preview\<close>

lemmas tick_defs = loop_def loop_player_def apply_input_def apply_physics_def
  floor_collision_def jump_input_def state_machine_def platform_collision_def
  platform_overlap_def current_sprite_def update_animation_def Let_def

lemmas example_defs = preview_game_def initial_player_def no_keys_def hold_right_def
  hold_right_space_def

lemma replicate_numeral_unfold:
  "replicate (numeral k) x = x # replicate (pred_numeral k) x"
  by (simp add: numeral_eq_Suc)

lemma phase_clock:
  "frameIndex (apply_input k p) = frameIndex p" "frameTimer (apply_input k p) = frameTimer p"
  "frameIndex (apply_physics p) = frameIndex p" "frameTimer (apply_physics p) = frameTimer p"
  "frameIndex (floor_collision y p) = frameIndex p" "frameTimer (floor_collision y p) = frameTimer p"
  "frameIndex (jump_input k p) = frameIndex p" "frameTimer (jump_input k p) = frameTimer p"
  "frameIndex (state_machine p) = frameIndex p" "frameTimer (state_machine p) = frameTimer p"
  "frameIndex (platform_collision y p) = frameIndex p"
  "frameTimer (platform_collision y p) = frameTimer p"
  by (simp_all add: apply_input_def apply_physics_def floor_collision_def jump_input_def
      state_machine_def platform_collision_def Let_def)

lemma loop_player_clock:
  "frameIndex (loop_player floorY k g) = frameIndex (g_player g)"
  "frameTimer (loop_player floorY k g) = frameTimer (g_player g)"
  by (simp_all add: loop_player_def Let_def phase_clock)

lemma update_animation_clock:
  "(frameIndex (update_animation n p), frameTimer (update_animation n p)) =
     frame_clock n (frameIndex p, frameTimer p)"
  by (simp add: update_animation_def frame_clock_def Let_def)

lemma update_animation_state: "state (update_animation n p) = state p"
  by (simp add: update_animation_def Let_def)

lemma loop_bindings:
  "g_assets (fst (loop h k g)) = g_assets g" "g_meta (fst (loop h k g)) = g_meta g"
  by (simp_all add: loop_def Let_def split: prod.splits option.splits)

lemma current_sprite_loop: "current_sprite (fst (loop h k g)) st = current_sprite g st"
  by (simp add: current_sprite_def loop_bindings)

lemma loop_state:
  "state (g_player (fst (loop h k g))) = state (loop_player (of_nat h - 64) k g)"
  by (simp add: loop_def Let_def update_animation_state split: prod.splits option.splits)

lemma loop_clock:
  assumes "current_sprite g (state (g_player (fst (loop h k g)))) = (Some img, n)"
  shows "(frameIndex (g_player (fst (loop h k g))), frameTimer (g_player (fst (loop h k g)))) =
           frame_clock n (frameIndex (g_player g), frameTimer (g_player g))"
proof -
  have "current_sprite g (state (loop_player (of_nat h - 64) k g)) = (Some img, n)"
    using assms by (simp add: loop_state)
  then have "g_player (fst (loop h k g)) = update_animation n (loop_player (of_nat h - 64) k g)"
    by (simp add: loop_def Let_def)
  then show ?thesis
    by (simp only: update_animation_clock loop_player_clock)
qed

lemma run_loop_clock:
  assumes "\<forall>j < length ks.
             current_sprite g (state (g_player (run_loop h (take (Suc j) ks) g))) = (Some img, n)"
  shows "(frameIndex (g_player (run_loop h ks g)), frameTimer (g_player (run_loop h ks g))) =
           (frame_clock n ^^ length ks) (frameIndex (g_player g), frameTimer (g_player g))"
  using assms
proof (induction ks arbitrary: g)
  case Nil
  then show ?case by simp
next
  case (Cons k ks)
  let ?g1 = "fst (loop h k g)"
  have first: "current_sprite g (state (g_player ?g1)) = (Some img, n)"
    using Cons.prems [rule_format, of 0] by simp
  have rest: "\<forall>j < length ks.
      current_sprite ?g1 (state (g_player (run_loop h (take (Suc j) ks) ?g1))) = (Some img, n)"
  proof (intro allI impI)
    fix j assume "j < length ks"
    then have "current_sprite g (state (g_player (run_loop h (take (Suc (Suc j)) (k # ks)) g)))
        = (Some img, n)"
      using Cons.prems [rule_format, of "Suc j"] by simp
    then show "current_sprite ?g1 (state (g_player (run_loop h (take (Suc j) ks) ?g1))) = (Some img, n)"
      by (simp add: current_sprite_loop)
  qed
  have "(frameIndex (g_player (run_loop h (k # ks) g)), frameTimer (g_player (run_loop h (k # ks) g)))
      = (frame_clock n ^^ length ks) (frameIndex (g_player ?g1), frameTimer (g_player ?g1))"
    using Cons.IH [OF rest] by simp
  also have "\<dots> = (frame_clock n ^^ length ks) (frame_clock n (frameIndex (g_player g), frameTimer (g_player g)))"
    using loop_clock [OF first] by simp
  also have "\<dots> = (frame_clock n ^^ length (k # ks)) (frameIndex (g_player g), frameTimer (g_player g))"
    by (simp add: funpow_swap1)
  finally show ?case .
qed

lemma frame_clock_period:
  assumes "t \<le> 8"
  shows "(frame_clock n ^^ 9) (i, t) = ((i + 1) mod n, t)"
proof -
  have "t = 0 \<or> t = 1 \<or> t = 2 \<or> t = 3 \<or> t = 4 \<or> t = 5 \<or> t = 6 \<or> t = 7 \<or> t = 8"
    using assms by arith
  then show ?thesis
    by (elim disjE) (simp_all add: eval_nat_numeral frame_clock_def)
qed

text \<open>
  C1 on the code. The preview is loaded with an idle strip of one frame and a jump strip of
  four frames, and no key is pressed. The player falls for 19 ticks in the jump state, the
  frame index reaching 2, and lands on tick 20: the state becomes idle, whose frame count
  is 1, and the index is still 2, so the source rectangle of the sprite starts at x = 64
  in a bitmap 32 wide.
\<close>

theorem frame_index_after_state_change:
  "(let g = run_loop 450 (replicate 19 no_keys) (preview_game None);
        r = loop 450 no_keys g;
        p = g_player (fst r)
    in state (g_player g) = Jump \<and> frameIndex (g_player g) = 2
     \<and> state p = Idle
     \<and> current_sprite (fst r) (state p) = (Some \<lparr>img_width = 32, img_height = 32\<rparr>, 1)
     \<and> frameIndex p = 2
     \<and> snd r = Some (64, 0, 32, 32))"
  by (simp add: tick_defs example_defs replicate_numeral_unfold)

text \<open>
  C3 (as the code has it). The frame index advances once every 9 ticks: over 9 consecutive
  ticks in which the active movement state has a bitmap and the same frame count \<open>n\<close>, the
  index goes from \<open>i\<close> to \<open>(i + 1) mod n\<close> and the frame timer returns to the value it had,
  for a timer that starts in its range \<open>0..8\<close>. The frame counts bound at load are at least 1
  (\<open>metadata?.frames || 1\<close>, lines 105-113), hence \<open>0 < n\<close>.
\<close>

theorem frame_index_period:
  assumes "length ks = 9" and "frameTimer (g_player g) \<le> 8"
    and "\<forall>j < length ks.
           current_sprite g (state (g_player (run_loop h (take (Suc j) ks) g))) = (Some img, n)"
    and "0 < n"
  shows "frameIndex (g_player (run_loop h ks g)) = (frameIndex (g_player g) + 1) mod n
       \<and> frameTimer (g_player (run_loop h ks g)) = frameTimer (g_player g)"
proof -
  have "(frameIndex (g_player (run_loop h ks g)), frameTimer (g_player (run_loop h ks g))) =
      (frame_clock n ^^ 9) (frameIndex (g_player g), frameTimer (g_player g))"
    using run_loop_clock [OF assms(3)] assms(1) by simp
  then show ?thesis using frame_clock_period [OF assms(2)] by simp
qed


theorem frame_index_period_witness:
  "length (replicate 9 no_keys) = 9
   \<and> frameTimer (g_player (preview_game None)) \<le> 8
   \<and> frameIndex (g_player (run_loop 450 (replicate 9 no_keys) (preview_game None))) = 1
   \<and> frameTimer (g_player (run_loop 450 (replicate 9 no_keys) (preview_game None))) = 0"
proof -
  have sprite: "\<forall>j < length (replicate 9 no_keys).
      current_sprite (preview_game None)
        (state (g_player (run_loop 450 (take (Suc j) (replicate 9 no_keys)) (preview_game None))))
      = (Some \<lparr>img_width = 128, img_height = 32\<rparr>, 4)"
  proof (intro allI impI)
    fix j assume "j < length (replicate 9 no_keys)"
    then have "j = 0 \<or> j = 1 \<or> j = 2 \<or> j = 3 \<or> j = 4 \<or> j = 5 \<or> j = 6 \<or> j = 7 \<or> j = 8"
      by simp arith
    then show "current_sprite (preview_game None)
        (state (g_player (run_loop 450 (take (Suc j) (replicate 9 no_keys)) (preview_game None))))
      = (Some \<lparr>img_width = 128, img_height = 32\<rparr>, 4)"
      by (elim disjE) (simp_all add: tick_defs example_defs replicate_numeral_unfold)
  qed
  have timer: "frameTimer (g_player (preview_game None)) \<le> 8"
    by (simp add: example_defs)
  have idx: "frameIndex (g_player (preview_game None)) = 0"
    "frameTimer (g_player (preview_game None)) = 0"
    by (simp_all add: example_defs)
  show ?thesis
    using frame_index_period [OF _ timer sprite] timer idx by simp
qed

text \<open>
  C3 as stated (one advance every 8 ticks) fails: in the first 8 ticks of the preview, with
  no key held, the player falls in the jump state (four frames) and the frame index stays
  at 0; the listed triples are the movement state, the frame index and the frame timer
  after each tick.
\<close>

theorem frame_index_eight_ticks_counterexample:
  "map (\<lambda>j. let p = g_player (run_loop 450 (replicate j no_keys) (preview_game None))
            in (state p, frameIndex p, frameTimer p)) [1, 2, 3, 4, 5, 6, 7, 8]
     = [(Jump, 0, 1), (Jump, 0, 2), (Jump, 0, 3), (Jump, 0, 4),
        (Jump, 0, 5), (Jump, 0, 6), (Jump, 0, 7), (Jump, 0, 8)]
   \<and> jumpFrames (g_meta (preview_game None)) = 4
   \<and> (0 + 1) mod 4 \<noteq> (0 :: nat)"
  by (simp add: tick_defs example_defs replicate_numeral_unfold)






end
